theory Spec2Isabelle
  imports Complex_Main "HOL-Library.Word"
begin

section \<open>Machine types and faults\<close>

type_synonym u32 = "32 word"
type_synonym u64 = "64 word"

text \<open>
  The kernel has no error channel. The two ways in which its C++ text leaves defined
  behaviour are made values of the model: an access \<open>data[k]\<close> outside the buffer
  and the division \<open>sum / iterations\<close> with a zero divisor.
\<close>

datatype fault = OutOfBounds | DivisionByZero

section \<open>The pointer-chase loop of \<open>gpu_stride_kernel\<close>\<close>

text \<open>
  Both loops of \<open>memory_latency.cu\<close> (lines 17-22 and 32-37) have the same text:
  \<^verbatim>\<open>for (uint32_t i = 0; i < iterations; ++i) { pos = data[pos]; dependency += pos; }\<close>
  The model keeps the 32-bit counter \<open>i\<close>; \<open>dependency\<close> wraps as \<open>uint32_t\<close> does.
\<close>

function chase_loop :: "u32 list \<Rightarrow> u32 \<Rightarrow> u32 \<Rightarrow> u32 \<Rightarrow> u32 \<Rightarrow> fault + (u32 \<times> u32)" where
  "chase_loop data iterations i pos dependency =
     (if i < iterations then
        (if unat pos < length data then
           chase_loop data iterations (i + 1) (data ! unat pos) (dependency + data ! unat pos)
         else Inl OutOfBounds)
      else Inr (pos, dependency))"
  by pat_completeness auto
termination
proof (relation "measure (\<lambda>(data, iterations, i, pos, dependency). unat iterations - unat i)")
  show "wf (measure (\<lambda>(data :: u32 list, iterations :: u32, i :: u32, pos :: u32, dependency :: u32).
              unat iterations - unat i))"
    by simp
next
  fix data :: "u32 list" and iterations i pos dependency :: u32
  assume lt: "i < iterations"
  then have "unat i < unat iterations"
    by (simp add: word_less_nat_alt)
  moreover have "unat (i + 1) = Suc (unat i)"
    using lt by unat_arith
  ultimately show "((data, iterations, i + 1, data ! unat pos, dependency + data ! unat pos),
           (data, iterations, i, pos, dependency))
          \<in> measure (\<lambda>(data, iterations, i, pos, dependency). unat iterations - unat i)"
    by simp
qed

declare chase_loop.simps [simp del]

text \<open>
  The same loop with a record of the positions it loads, in order: a ghost copy used to
  speak about the sequence of hops. The list \<open>visited\<close> is not a variable of the program.
\<close>

function chase_visits ::
  "u32 list \<Rightarrow> u32 \<Rightarrow> u32 \<Rightarrow> u32 \<Rightarrow> u32 \<Rightarrow> u32 list \<Rightarrow> fault + (u32 \<times> u32 \<times> u32 list)" where
  "chase_visits data iterations i pos dependency visited =
     (if i < iterations then
        (if unat pos < length data then
           chase_visits data iterations (i + 1) (data ! unat pos) (dependency + data ! unat pos)
             (visited @ [data ! unat pos])
         else Inl OutOfBounds)
      else Inr (pos, dependency, visited))"
  by pat_completeness auto
termination
proof (relation "measure (\<lambda>(data, iterations, i, pos, dependency, visited). unat iterations - unat i)")
  show "wf (measure (\<lambda>(data :: u32 list, iterations :: u32, i :: u32, pos :: u32, dependency :: u32,
              visited :: u32 list). unat iterations - unat i))"
    by simp
next
  fix data visited :: "u32 list" and iterations i pos dependency :: u32
  assume lt: "i < iterations"
  then have "unat i < unat iterations"
    by (simp add: word_less_nat_alt)
  moreover have "unat (i + 1) = Suc (unat i)"
    using lt by unat_arith
  ultimately show "((data, iterations, i + 1, data ! unat pos, dependency + data ! unat pos,
            visited @ [data ! unat pos]),
           (data, iterations, i, pos, dependency, visited))
          \<in> measure (\<lambda>(data, iterations, i, pos, dependency, visited). unat iterations - unat i)"
    by simp
qed

declare chase_visits.simps [simp del]

section \<open>The kernel\<close>

text \<open>Lines 25-27: \<^verbatim>\<open>if (pos != 0) { pos = 0; }\<close>\<close>

definition reset_pos :: "u32 \<Rightarrow> u32" where
  "reset_pos pos = (if pos \<noteq> 0 then 0 else pos)"

text \<open>
  \<open>gpu_stride_kernel data iterations t_start t_stop\<close> is the kernel run by its single
  thread; \<open>t_start\<close> and \<open>t_stop\<close> are the values the two calls of \<open>clock64()\<close> return
  (lines 29 and 39). The result is the buffer after the run, or the fault that ends it.
  \<open>sum\<close> starts at 0 and receives \<open>stop - start\<close> in 64-bit arithmetic (line 40); the
  quotient is unsigned 64-bit division, narrowed to \<open>uint32_t\<close> by the cast (line 43).
\<close>

definition gpu_stride_kernel :: "u32 list \<Rightarrow> u32 \<Rightarrow> u64 \<Rightarrow> u64 \<Rightarrow> fault + u32 list" where
  "gpu_stride_kernel data iterations t_start t_stop =
     (case chase_loop data iterations 0 0 0 of
        Inl e \<Rightarrow> Inl e
      | Inr (pos1, dependency1) \<Rightarrow>
          (case chase_loop data iterations 0 (reset_pos pos1) dependency1 of
             Inl e \<Rightarrow> Inl e
           | Inr (pos2, dependency2) \<Rightarrow>
               (let sum = 0 + (t_stop - t_start) in
                if iterations = 0 then Inl DivisionByZero
                else if \<not> 0 < length data then Inl OutOfBounds
                else
                  (let data1 = data[0 := ucast (sum div ucast iterations)] in
                   if pos2 = 1 then
                     (if 1 < length data1 then Inr (data1[1 := dependency2])
                      else Inl OutOfBounds)
                   else Inr data1))))"

text \<open>Line 51-54: the host entry point launches the kernel with one block of one thread.\<close>

definition gpu_stride :: "u32 list \<Rightarrow> u32 \<Rightarrow> u64 \<Rightarrow> u64 \<Rightarrow> fault + u32 list" where
  "gpu_stride data iterations t_start t_stop = gpu_stride_kernel data iterations t_start t_stop"

text \<open>
  The kernel with a record of its two phases: the text of \<open>gpu_stride_kernel\<close> with each
  loop replaced by its ghost copy \<open>chase_visits\<close>. Beside the buffer it returns the
  positions loaded by the warm-up loop and the position it ends at (line 22), the value
  of \<open>pos\<close> when the measurement loop begins (line 29, after the reset), and the
  positions loaded by the measurement loop and the position it ends at (line 37). None
  of these is a variable of the program.
\<close>

record phases =
  warm_up_visited :: "u32 list"
  warm_up_end :: u32
  measurement_start :: u32
  measurement_visited :: "u32 list"
  measurement_end :: u32

definition gpu_stride_kernel_visits ::
  "u32 list \<Rightarrow> u32 \<Rightarrow> u64 \<Rightarrow> u64 \<Rightarrow> fault + (u32 list \<times> phases)" where
  "gpu_stride_kernel_visits data iterations t_start t_stop =
     (case chase_visits data iterations 0 0 0 [] of
        Inl e \<Rightarrow> Inl e
      | Inr (pos1, dependency1, visited1) \<Rightarrow>
          (case chase_visits data iterations 0 (reset_pos pos1) dependency1 [] of
             Inl e \<Rightarrow> Inl e
           | Inr (pos2, dependency2, visited2) \<Rightarrow>
               (let sum = 0 + (t_stop - t_start);
                    ph = \<lparr>warm_up_visited = visited1, warm_up_end = pos1,
                          measurement_start = reset_pos pos1,
                          measurement_visited = visited2, measurement_end = pos2\<rparr> in
                if iterations = 0 then Inl DivisionByZero
                else if \<not> 0 < length data then Inl OutOfBounds
                else
                  (let data1 = data[0 := ucast (sum div ucast iterations)] in
                   if pos2 = 1 then
                     (if 1 < length data1 then Inr (data1[1 := dependency2], ph)
                      else Inl OutOfBounds)
                   else Inr (data1, ph)))))"

section \<open>The chain walked by the loop\<close>

text \<open>
  The buffer-indexing function \<open>position \<mapsto> buffer[position]\<close>, used to state what
  the loop computes. It is only applied where the index is inside the buffer.
\<close>

definition hop :: "u32 list \<Rightarrow> u32 \<Rightarrow> u32" where
  "hop data pos = data ! unat pos"

text \<open>The positions reached by \<open>n\<close> successive hops from \<open>pos\<close>, in order.\<close>

fun walk :: "u32 list \<Rightarrow> nat \<Rightarrow> u32 \<Rightarrow> u32 list" where
  "walk data 0 pos = []"
| "walk data (Suc n) pos = hop data pos # walk data n (hop data pos)"

text \<open>Every one of the \<open>n\<close> loads of that walk reads inside the buffer.\<close>

fun walk_ok :: "u32 list \<Rightarrow> nat \<Rightarrow> u32 \<Rightarrow> bool" where
  "walk_ok data 0 pos = True"
| "walk_ok data (Suc n) pos = (unat pos < length data \<and> walk_ok data n (hop data pos))"

text \<open>Every stored index addresses a slot of the buffer.\<close>

definition in_range :: "u32 list \<Rightarrow> bool" where
  "in_range data = (\<forall>x \<in> set data. unat x < length data)"

text \<open>
  The host's precondition on the Chase Buffer (section 3 of the specification): the
  stored indices are in range and the chain from slot 0 is a single cycle through all
  \<open>N\<close> slots, that is, \<open>N\<close> hops from 0 load \<open>N\<close> different positions.
\<close>

definition single_cycle :: "u32 list \<Rightarrow> bool" where
  "single_cycle data = (in_range data \<and> distinct (walk data (length data) 0))"

section \<open>The bit utilities\<close>

text \<open>
  Modelled from the spec: the CUDA intrinsic \<open>__clz\<close> is not defined in the repository.
  It counts the leading zero bits of a 32-bit integer: the number of consecutive zero
  bits from bit 31 downwards, which is 32 for the argument 0.
\<close>

fun clz_from :: "nat \<Rightarrow> u32 \<Rightarrow> nat" where
  "clz_from 0 x = 0"
| "clz_from (Suc n) x = (if bit x n then 0 else Suc (clz_from n x))"

definition clz :: "u32 \<Rightarrow> int" where
  "clz x = int (clz_from 32 x)"

text \<open>
  \<^verbatim>\<open>__device__ int log2_floor_power_of_two(int x) { return 32 - __clz(x) - 1; }\<close>
  \<^verbatim>\<open>__device__ int log2_ceil_power_of_two(int x) { return 32 - __clz(x - 1); }\<close>
  The argument is the 32-bit pattern of the \<open>int\<close> (its value is \<open>sint x\<close>). The
  results lie between -1 and 32, so the \<open>int\<close> arithmetic of the source cannot wrap
  and is written over the integers; \<open>x - 1\<close> is the 32-bit subtraction.
\<close>

definition log2_floor_power_of_two :: "u32 \<Rightarrow> int" where
  "log2_floor_power_of_two x = 32 - clz x - 1"

definition log2_ceil_power_of_two :: "u32 \<Rightarrow> int" where
  "log2_ceil_power_of_two x = 32 - clz (x - 1)"

section \<open>What the loop computes\<close>

lemma counter_step:
  fixes i iterations :: u32
  assumes "i < iterations"
  shows "unat (i + 1) = Suc (unat i)" and "i + 1 \<le> iterations"
    and "unat iterations - unat i = Suc (unat iterations - unat (i + 1))"
  using assms by unat_arith+

lemma chase_visits_walk:
  "i \<le> iterations \<Longrightarrow>
   chase_visits data iterations i pos dependency visited =
     (if walk_ok data (unat iterations - unat i) pos
      then Inr ((hop data ^^ (unat iterations - unat i)) pos,
                dependency + sum_list (walk data (unat iterations - unat i) pos),
                visited @ walk data (unat iterations - unat i) pos)
      else Inl OutOfBounds)"
proof (induction "unat iterations - unat i" arbitrary: i pos dependency visited)
  case 0
  then have "\<not> i < iterations"
    by (simp add: word_less_nat_alt)
  with 0 show ?case
    by (subst chase_visits.simps) simp
next
  case (Suc n)
  then have lt: "i < iterations"
    by (simp add: word_less_nat_alt)
  have n: "n = unat iterations - unat (i + 1)"
    using counter_step(3) [OF lt] Suc.hyps(2) by simp
  have le: "i + 1 \<le> iterations"
    by (rule counter_step(2) [OF lt])
  note IH = Suc.hyps(1) [OF n le]
  show ?case
    unfolding Suc.hyps(2) [symmetric]
    by (subst chase_visits.simps)
       (simp add: lt IH n [symmetric] funpow_swap1 hop_def add.assoc)
qed

lemma chase_loop_visits:
  "chase_loop data iterations i pos dependency =
     map_sum id (\<lambda>(p, d, v). (p, d)) (chase_visits data iterations i pos dependency visited)"
proof (induction data iterations i pos dependency visited rule: chase_visits.induct)
  case (1 data iterations i pos dependency visited)
  show ?case
    by (subst chase_loop.simps, subst chase_visits.simps) (simp add: 1 id_def)
qed

lemma chase_loop_walk:
  "chase_loop data iterations 0 pos dependency =
     (if walk_ok data (unat iterations) pos
      then Inr ((hop data ^^ unat iterations) pos,
                dependency + sum_list (walk data (unat iterations) pos))
      else Inl OutOfBounds)"
  by (simp add: chase_loop_visits [where visited = "[]"] chase_visits_walk id_def)

section \<open>Counting leading zeros\<close>

lemma clz_from_zero: "clz_from n 0 = n"
  by (induction n) simp_all

lemma bit_ge: "bit x n \<Longrightarrow> 2 ^ n \<le> unat x" for x :: u32
proof (rule ccontr)
  assume b: "bit x n" and "\<not> 2 ^ n \<le> unat x"
  then have "unat x div 2 ^ n = 0" by simp
  moreover from b have "bit (unat x) n" by (simp add: bit_unsigned_iff)
  ultimately show False by (simp add: bit_iff_odd)
qed

lemma nbit_lt: "\<not> bit x n \<Longrightarrow> unat x < 2 ^ Suc n \<Longrightarrow> unat x < 2 ^ n" for x :: u32
proof -
  assume nb: "\<not> bit x n" and lt: "unat x < 2 ^ Suc n"
  have "bit (unat x) n = bit x n"
    by (simp add: bit_unsigned_iff)
  with nb have "even (unat x div 2 ^ n)"
    by (simp add: bit_iff_odd)
  moreover from lt have "unat x div 2 ^ n < 2"
    by (simp add: less_mult_imp_div_less)
  ultimately have "unat x div 2 ^ n = 0"
    by (cases "unat x div 2 ^ n") auto
  then show ?thesis
    by (simp add: div_eq_0_iff)
qed

lemma clz_from_bounds:
  "x \<noteq> 0 \<Longrightarrow> unat x < 2 ^ n \<Longrightarrow>
     clz_from n x < n \<and> 2 ^ (n - Suc (clz_from n x)) \<le> unat x \<and> unat x < 2 ^ (n - clz_from n x)"
proof (induction n)
  case 0
  then show ?case by (simp add: unat_eq_0)
next
  case (Suc n)
  show ?case
  proof (cases "bit x n")
    case True
    with Suc.prems show ?thesis by (simp add: bit_ge)
  next
    case False
    with Suc.prems have "unat x < 2 ^ n" by (simp add: nbit_lt)
    with Suc.IH Suc.prems(1) False show ?thesis by (simp add: Suc_diff_Suc)
  qed
qed

lemma sint_pos_unat:
  fixes x :: u32
  assumes "1 \<le> sint x"
  shows "sint x = int (unat x)" and "unat x < 2 ^ 31" and "x \<noteq> 0"
proof -
  from assms have nb: "\<not> bit x 31"
    using bit_last_iff [of x] by simp
  have "unat x < 2 ^ Suc 31"
    using unsigned_less [of x, where 'a = nat] by simp
  with nb show lt: "unat x < 2 ^ 31" by (rule nbit_lt)
  then have "int (unat x) < int (2 ^ 31)"
    by (simp only: of_nat_less_iff)
  then have up: "uint x < 2 ^ 31"
    by (simp only: uint_nat) simp
  have "- (2 ^ 31) \<le> (0 :: int)"
    by simp
  then have lo: "- (2 ^ 31) \<le> uint x"
    by (rule order_trans) simp
  have "signed_take_bit 31 (uint x) = uint x"
    using lo up by (rule signed_take_bit_int_eq_self)
  then have "sint x = uint x"
    by (simp only: sint_uint) simp
  then show "sint x = int (unat x)"
    by (simp only: uint_nat)
  from assms show "x \<noteq> 0" by auto
qed

lemma unat_ucast_u64: "unat (ucast (i :: u32) :: u64) = unat i"
proof -
  have "uint (ucast i :: u64) = uint i"
    by (rule uint_up_ucast) (simp add: is_up)
  then show ?thesis
    by (metis unat_eq_nat_uint)
qed

lemma floor_power_bounds:
  fixes x :: u32
  assumes "1 \<le> sint x"
  shows "0 \<le> log2_floor_power_of_two x"
    and "2 ^ nat (log2_floor_power_of_two x) \<le> unat x"
    and "unat x < 2 ^ Suc (nat (log2_floor_power_of_two x))"
proof -
  have "unat x < 2 ^ 32"
    using unsigned_less [of x, where 'a = nat] by simp
  with sint_pos_unat(3) [OF assms]
  have b: "clz_from 32 x < 32 \<and> 2 ^ (32 - Suc (clz_from 32 x)) \<le> unat x
           \<and> unat x < 2 ^ (32 - clz_from 32 x)"
    by (rule clz_from_bounds)
  then have f: "log2_floor_power_of_two x = int (32 - Suc (clz_from 32 x))"
    by (simp add: log2_floor_power_of_two_def clz_def)
  show "0 \<le> log2_floor_power_of_two x"
    by (simp add: f)
  show "2 ^ nat (log2_floor_power_of_two x) \<le> unat x"
    using b by (simp only: f nat_int)
  have "Suc (32 - Suc (clz_from 32 x)) = 32 - clz_from 32 x"
    using b by arith
  then show "unat x < 2 ^ Suc (nat (log2_floor_power_of_two x))"
    using b by (simp only: f nat_int)
qed

lemma ceil_one: "log2_ceil_power_of_two 1 = 0"
  by (simp add: log2_ceil_power_of_two_def clz_def clz_from_zero)

lemma ceil_power_bounds:
  fixes x :: u32
  assumes "1 \<le> sint x" and "x \<noteq> 1"
  shows "1 \<le> log2_ceil_power_of_two x"
    and "unat x \<le> 2 ^ nat (log2_ceil_power_of_two x)"
    and "2 ^ (nat (log2_ceil_power_of_two x) - 1) < unat x"
proof -
  note nz = sint_pos_unat(3) [OF assms(1)]
  have y: "unat (x - 1) = unat x - 1"
    using nz by (rule unat_minus_one)
  have ynz: "x - 1 \<noteq> 0"
    using assms(2) by simp
  have "unat (x - 1) < 2 ^ 32"
    using unsigned_less [of "x - 1", where 'a = nat] by simp
  with ynz
  have b: "clz_from 32 (x - 1) < 32 \<and> 2 ^ (32 - Suc (clz_from 32 (x - 1))) \<le> unat (x - 1)
           \<and> unat (x - 1) < 2 ^ (32 - clz_from 32 (x - 1))"
    by (rule clz_from_bounds)
  then have c: "log2_ceil_power_of_two x = int (32 - clz_from 32 (x - 1))"
    by (simp add: log2_ceil_power_of_two_def clz_def)
  show "1 \<le> log2_ceil_power_of_two x"
    using b by (simp only: c) simp
  show "unat x \<le> 2 ^ nat (log2_ceil_power_of_two x)"
    using b by (simp only: c nat_int y) arith
  have "32 - clz_from 32 (x - 1) - 1 = 32 - Suc (clz_from 32 (x - 1))"
    by simp
  moreover have "0 < unat x"
    using nz by (simp add: unat_gt_0)
  ultimately show "2 ^ (nat (log2_ceil_power_of_two x) - 1) < unat x"
    using b by (simp only: c nat_int y) arith
qed

lemma log2_eq_iff_power:
  fixes m n :: nat
  assumes "0 < m"
  shows "real n = log 2 (real m) \<longleftrightarrow> m = 2 ^ n"
proof
  assume "real n = log 2 (real m)"
  then have "2 powr (real n) = 2 powr (log 2 (real m))"
    by simp
  also have "\<dots> = real m"
    using assms by simp
  finally have "real m = 2 ^ n"
    by (simp add: powr_realpow)
  then have "real m = real (2 ^ n)"
    by simp
  then show "m = 2 ^ n"
    by (simp only: of_nat_eq_iff)
next
  assume "m = 2 ^ n"
  then show "real n = log 2 (real m)"
    by (rule log2_of_power_eq)
qed

lemma pow2_between_floor:
  fixes m f :: nat
  assumes "2 ^ f \<le> m" and "m < 2 ^ Suc f"
  shows "(\<exists>k. m = 2 ^ k) \<longleftrightarrow> m = 2 ^ f"
proof
  assume "\<exists>k. m = 2 ^ k"
  then obtain k where k: "m = 2 ^ k" ..
  from assms(1) have "f \<le> k"
    unfolding k by (rule power_le_imp_le_exp [rotated]) simp
  moreover from assms(2) have "k < Suc f"
    unfolding k by (rule power_less_imp_less_exp [rotated]) simp
  ultimately show "m = 2 ^ f"
    using k by simp
qed auto

lemma pow2_between_ceil:
  fixes m c :: nat
  assumes "2 ^ (c - 1) < m" and "m \<le> 2 ^ c" and "1 \<le> c"
  shows "(\<exists>k. m = 2 ^ k) \<longleftrightarrow> m = 2 ^ c"
proof
  assume "\<exists>k. m = 2 ^ k"
  then obtain k where k: "m = 2 ^ k" ..
  from assms(1) have "c - 1 < k"
    unfolding k by (rule power_less_imp_less_exp [rotated]) simp
  moreover from assms(2) have "k \<le> c"
    unfolding k by (rule power_le_imp_le_exp [rotated]) simp
  ultimately show "m = 2 ^ c"
    using k assms(3) by (simp add: le_antisym)
qed auto

lemma int_pow2_iff: "(\<exists>k::nat. int m = 2 ^ k) \<longleftrightarrow> (\<exists>k::nat. m = 2 ^ k)"
proof -
  have "int m = 2 ^ k \<longleftrightarrow> m = 2 ^ k" for k :: nat
  proof -
    have "int m = 2 ^ k \<longleftrightarrow> int m = int (2 ^ k)" by simp
    also have "\<dots> \<longleftrightarrow> m = 2 ^ k" by (simp only: of_nat_eq_iff)
    finally show ?thesis .
  qed
  then show ?thesis by simp
qed

lemma floor_log2_real:
  fixes x :: u32
  assumes "1 \<le> sint x"
  shows "real_of_int (log2_floor_power_of_two x) \<le> log 2 (real_of_int (sint x))"
    and "real_of_int (log2_floor_power_of_two x) = log 2 (real_of_int (sint x))
           \<longleftrightarrow> (\<exists>k::nat. sint x = 2 ^ k)"
proof -
  define f where "f = nat (log2_floor_power_of_two x)"
  have fi: "log2_floor_power_of_two x = int f"
    using floor_power_bounds(1) [OF assms] by (simp add: f_def)
  have lo: "2 ^ f \<le> unat x" and hi: "unat x < 2 ^ Suc f"
    using floor_power_bounds(2,3) [OF assms] by (simp_all only: f_def)
  have m: "sint x = int (unat x)"
    by (rule sint_pos_unat(1) [OF assms])
  have pos: "0 < unat x"
    using sint_pos_unat(3) [OF assms] by (simp add: unat_gt_0)
  have "real f \<le> log 2 (real (unat x))"
    using lo by (rule le_log2_of_power)
  then show "real_of_int (log2_floor_power_of_two x) \<le> log 2 (real_of_int (sint x))"
    by (simp only: fi m of_int_of_nat_eq)
  have "real f = log 2 (real (unat x)) \<longleftrightarrow> (\<exists>k::nat. unat x = 2 ^ k)"
    by (simp only: log2_eq_iff_power [OF pos] pow2_between_floor [OF lo hi])
  then show "real_of_int (log2_floor_power_of_two x) = log 2 (real_of_int (sint x))
           \<longleftrightarrow> (\<exists>k::nat. sint x = 2 ^ k)"
    by (simp only: fi m of_int_of_nat_eq int_pow2_iff)
qed

lemma ceil_log2_real:
  fixes x :: u32
  assumes "1 \<le> sint x"
  shows "log 2 (real_of_int (sint x)) \<le> real_of_int (log2_ceil_power_of_two x)"
    and "log 2 (real_of_int (sint x)) = real_of_int (log2_ceil_power_of_two x)
           \<longleftrightarrow> (\<exists>k::nat. sint x = 2 ^ k)"
proof -
  have both: "log 2 (real_of_int (sint x)) \<le> real_of_int (log2_ceil_power_of_two x)
     \<and> (log 2 (real_of_int (sint x)) = real_of_int (log2_ceil_power_of_two x)
           \<longleftrightarrow> (\<exists>k::nat. sint x = 2 ^ k))"
  proof (cases "x = 1")
    case True
    have "sint (1 :: u32) = 2 ^ (0 :: nat)" by simp
    then have "\<exists>k::nat. sint (1 :: u32) = 2 ^ k" ..
    then show ?thesis
      by (simp add: True ceil_one)
  next
    case False
    define c where "c = nat (log2_ceil_power_of_two x)"
    have ci: "log2_ceil_power_of_two x = int c" and c1: "1 \<le> c"
      using ceil_power_bounds(1) [OF assms False] by (simp_all add: c_def)
    have hi: "unat x \<le> 2 ^ c" and lo: "2 ^ (c - 1) < unat x"
      using ceil_power_bounds(2,3) [OF assms False] by (simp_all only: c_def)
    have m: "sint x = int (unat x)"
      by (rule sint_pos_unat(1) [OF assms])
    have pos: "0 < unat x"
      using sint_pos_unat(3) [OF assms] by (simp add: unat_gt_0)
    have le: "log 2 (real (unat x)) \<le> real c"
      using hi pos by (rule log2_of_power_le)
    have "real c = log 2 (real (unat x)) \<longleftrightarrow> (\<exists>k::nat. unat x = 2 ^ k)"
      by (simp only: log2_eq_iff_power [OF pos] pow2_between_ceil [OF lo hi c1])
    then have "log 2 (real (unat x)) = real c \<longleftrightarrow> (\<exists>k::nat. unat x = 2 ^ k)"
      by (simp only: eq_commute [of "real c"])
    with le show ?thesis
      by (simp only: ci m of_int_of_nat_eq int_pow2_iff)
  qed
  from both show "log 2 (real_of_int (sint x)) \<le> real_of_int (log2_ceil_power_of_two x)" ..
  from both show "log 2 (real_of_int (sint x)) = real_of_int (log2_ceil_power_of_two x)
           \<longleftrightarrow> (\<exists>k::nat. sint x = 2 ^ k)" ..
qed

section \<open>What the kernel computes\<close>

lemma reset_pos_zero: "reset_pos pos = 0"
  by (simp add: reset_pos_def)

lemma length_walk: "length (walk data n pos) = n"
  by (induction n arbitrary: pos) simp_all

lemma walk_nth: "k < n \<Longrightarrow> walk data n pos ! k = (hop data ^^ Suc k) pos"
proof (induction n arbitrary: pos k)
  case 0
  then show ?case by simp
next
  case (Suc n)
  show ?case
  proof (cases k)
    case 0
    then show ?thesis by simp
  next
    case (Suc j)
    with Suc.prems have "j < n" by simp
    then have "walk data n (hop data pos) ! j = (hop data ^^ Suc j) (hop data pos)"
      by (rule Suc.IH)
    then show ?thesis
      by (simp add: Suc funpow_swap1)
  qed
qed

lemma in_range_walk_ok:
  "in_range data \<Longrightarrow> unat pos < length data \<Longrightarrow> walk_ok data n pos"
  by (induction n arbitrary: pos) (simp_all add: in_range_def hop_def)

lemma in_range_funpow:
  "in_range data \<Longrightarrow> unat pos < length data \<Longrightarrow> unat ((hop data ^^ n) pos) < length data"
  by (induction n) (simp_all add: in_range_def hop_def)

lemma gpu_stride_kernel_walk:
  "gpu_stride_kernel data iterations t_start t_stop =
     (if \<not> walk_ok data (unat iterations) 0 then Inl OutOfBounds
      else if iterations = 0 then Inl DivisionByZero
      else if data = [] then Inl OutOfBounds
      else if (hop data ^^ unat iterations) 0 = 1 then
        (if 1 < length data then
           Inr (data[0 := ucast ((t_stop - t_start) div ucast iterations),
                     1 := sum_list (walk data (unat iterations) 0)
                          + sum_list (walk data (unat iterations) 0)])
         else Inl OutOfBounds)
      else Inr (data[0 := ucast ((t_stop - t_start) div ucast iterations)]))"
  by (simp add: gpu_stride_kernel_def chase_loop_walk reset_pos_zero)

lemma gpu_stride_kernel_returns:
  assumes "in_range data" and "data \<noteq> []" and "iterations \<noteq> 0"
  shows "\<exists>data'. gpu_stride_kernel data iterations t_start t_stop = Inr data'"
proof -
  from assms(2) have z: "unat (0 :: u32) < length data"
    by simp
  have ok: "walk_ok data (unat iterations) 0"
    using assms(1) z by (rule in_range_walk_ok)
  have "unat ((hop data ^^ unat iterations) 0) < length data"
    using assms(1) z by (rule in_range_funpow)
  then have "(hop data ^^ unat iterations) 0 = 1 \<Longrightarrow> 1 < length data"
    by simp
  with ok assms(2,3) show ?thesis
    by (auto simp add: gpu_stride_kernel_walk)
qed

lemma gpu_stride_kernel_slot0:
  assumes "gpu_stride_kernel data iterations t_start t_stop = Inr data'"
  shows "iterations \<noteq> 0" and "length data' = length data" and "0 < length data'"
    and "data' ! 0 = ucast ((t_stop - t_start) div ucast iterations)"
  using assms
  by (auto simp add: gpu_stride_kernel_walk nth_list_update split: if_splits)

lemma gpu_stride_kernel_visits_walk:
  "gpu_stride_kernel_visits data iterations t_start t_stop =
     (if \<not> walk_ok data (unat iterations) 0 then Inl OutOfBounds
      else if iterations = 0 then Inl DivisionByZero
      else if data = [] then Inl OutOfBounds
      else if (hop data ^^ unat iterations) 0 = 1 then
        (if 1 < length data then
           Inr (data[0 := ucast ((t_stop - t_start) div ucast iterations),
                     1 := sum_list (walk data (unat iterations) 0)
                          + sum_list (walk data (unat iterations) 0)],
                \<lparr>warm_up_visited = walk data (unat iterations) 0,
                 warm_up_end = (hop data ^^ unat iterations) 0,
                 measurement_start = 0,
                 measurement_visited = walk data (unat iterations) 0,
                 measurement_end = (hop data ^^ unat iterations) 0\<rparr>)
         else Inl OutOfBounds)
      else Inr (data[0 := ucast ((t_stop - t_start) div ucast iterations)],
                \<lparr>warm_up_visited = walk data (unat iterations) 0,
                 warm_up_end = (hop data ^^ unat iterations) 0,
                 measurement_start = 0,
                 measurement_visited = walk data (unat iterations) 0,
                 measurement_end = (hop data ^^ unat iterations) 0\<rparr>))"
  by (simp add: gpu_stride_kernel_visits_def chase_visits_walk reset_pos_zero)

lemma gpu_stride_kernel_visits_project:
  "gpu_stride_kernel data iterations t_start t_stop =
     map_sum (\<lambda>e. e) fst (gpu_stride_kernel_visits data iterations t_start t_stop)"
  by (simp add: gpu_stride_kernel_walk gpu_stride_kernel_visits_walk)

lemma unat_ucast_u32: "unat (ucast (w :: u64) :: u32) = unat w mod 2 ^ 32"
  by (simp add: unsigned_ucast_eq take_bit_eq_mod)

lemma single_cycle_in_range: "single_cycle data \<Longrightarrow> in_range data"
  by (simp add: single_cycle_def)

section \<open>The latency kernel: claims\<close>

text \<open>
  C1. For every buffer and every \<open>iterations > 0\<close>, a run of the kernel that completes
  has written into slot 0 the average latency: the elapsed-cycle count
  \<open>t_stop - t_start\<close> divided by \<open>iterations\<close> in unsigned 64-bit division, which is
  the quotient of the two numbers with the remainder dropped, converted to the slot's type
  \<open>uint32_t\<close>. The write is unconditional: it does not depend on the chain or on what
  slot 0 held. A non-empty buffer whose indices are all in range always completes.
\<close>

theorem average_latency_written:
  assumes "iterations \<noteq> 0"
  shows "(\<forall>data'. gpu_stride_kernel data iterations t_start t_stop = Inr data' \<longrightarrow>
            0 < length data'
            \<and> data' ! 0 = ucast ((t_stop - t_start) div ucast iterations)
            \<and> unat ((t_stop - t_start) div (ucast iterations :: u64))
                = unat (t_stop - t_start) div unat iterations
            \<and> (unat (t_stop - t_start) div unat iterations < 2 ^ 32 \<longrightarrow>
                 unat (data' ! 0) = unat (t_stop - t_start) div unat iterations))
         \<and> (data \<noteq> [] \<and> in_range data \<longrightarrow>
              (\<exists>data'. gpu_stride_kernel data iterations t_start t_stop = Inr data'))"
proof (intro conjI allI impI)
  fix data'
  assume run: "gpu_stride_kernel data iterations t_start t_stop = Inr data'"
  show "0 < length data'"
    by (rule gpu_stride_kernel_slot0(3) [OF run])
  show stored:
    "data' ! 0 = ucast ((t_stop - t_start) div ucast iterations)"
    by (rule gpu_stride_kernel_slot0(4) [OF run])
  show q: "unat ((t_stop - t_start) div (ucast iterations :: u64))
          = unat (t_stop - t_start) div unat iterations"
    by (simp only: unat_div unat_ucast_u64)
  assume fits: "unat (t_stop - t_start) div unat iterations < 2 ^ 32"
  have "unat (data' ! 0) = unat ((t_stop - t_start) div (ucast iterations :: u64)) mod 2 ^ 32"
    by (simp only: stored unat_ucast_u32)
  also have "\<dots> = unat (t_stop - t_start) div unat iterations"
    using fits by (simp only: q mod_less)
  finally show "unat (data' ! 0) = unat (t_stop - t_start) div unat iterations" .
next
  assume "data \<noteq> [] \<and> in_range data"
  with assms show "\<exists>data'. gpu_stride_kernel data iterations t_start t_stop = Inr data'"
    by (simp add: gpu_stride_kernel_returns)
qed

theorem average_latency_written_witness:
  "(5 :: u32) \<noteq> 0 \<and> gpu_stride_kernel [1, 2, 3, 0] 5 0 103 = Inr [20, 14, 3, 0]
   \<and> unat ((103 - 0) div (ucast (5 :: u32) :: u64)) = 103 div 5"
proof -
  have h: "(5 :: u32) \<noteq> 0"
    by simp
  have run: "gpu_stride_kernel [1, 2, 3, 0] 5 0 103 = Inr [20, 14, 3, 0]"
    by code_simp
  from average_latency_written [OF h, of "[1, 2, 3, 0]" 0 103] run
  have "unat ((103 - 0) div (ucast (5 :: u32) :: u64)) = unat (103 - 0 :: u64) div unat (5 :: u32)"
    by blast
  with h run show ?thesis
    by simp
qed

text \<open>
  C2, as stated, fails: the guard \<open>pos == 1\<close> is tested on the position after the
  measurement loop, not on the position that was reset. On the 4-cycle \<open>[1, 2, 3, 0]\<close>
  five hops from slot 0 end at index 1, and slot 1 is overwritten with the sink (14).
\<close>

theorem guarded_write_executes:
  "gpu_stride_kernel [1, 2, 3, 0] 5 0 100 = Inr [20, 14, 3, 0]
   \<and> ([20, 14, 3, 0] :: u32 list) ! 1 \<noteq> [1, 2, 3, 0] ! 1"
  by code_simp

text \<open>
  C2, amended. The guarded write executes exactly when \<open>iterations\<close> hops from slot 0
  end at index 1: then slot 1 receives the value of \<open>dependency\<close> after the second
  loop. In every other completed run slot 1 keeps its value.
\<close>

theorem slot1_written_iff_final_pos_1:
  assumes "gpu_stride_kernel data iterations t_start t_stop = Inr data'"
  shows "((hop data ^^ unat iterations) 0 \<noteq> 1 \<longrightarrow> data' ! 1 = data ! 1)
       \<and> ((hop data ^^ unat iterations) 0 = 1 \<longrightarrow>
            1 < length data \<and>
            (\<exists>pos1 dependency1. chase_loop data iterations 0 0 0 = Inr (pos1, dependency1)
               \<and> chase_loop data iterations 0 (reset_pos pos1) dependency1 = Inr (1, data' ! 1)))"
  using assms
  by (auto simp add: gpu_stride_kernel_walk chase_loop_walk reset_pos_zero split: if_splits)

theorem slot1_written_iff_final_pos_1_witness:
  "gpu_stride_kernel [1, 2, 3, 0] 5 0 100 = Inr [20, 14, 3, 0]
   \<and> (hop [1, 2, 3, 0] ^^ unat (5 :: u32)) 0 = 1
   \<and> (\<exists>pos1 dependency1. chase_loop [1, 2, 3, 0] 5 0 0 0 = Inr (pos1, dependency1)
               \<and> chase_loop [1, 2, 3, 0] 5 0 (reset_pos pos1) dependency1 = Inr (1, 14))
   \<and> gpu_stride_kernel [1, 2, 3, 0] 6 0 100 = Inr [16, 2, 3, 0]
   \<and> (hop [1, 2, 3, 0] ^^ unat (6 :: u32)) 0 \<noteq> 1"
proof -
  have run5: "gpu_stride_kernel [1, 2, 3, 0] 5 0 100 = Inr [20, 14, 3, 0]"
    by code_simp
  have run6: "gpu_stride_kernel [1, 2, 3, 0] 6 0 100 = Inr [16, 2, 3, 0]"
    by code_simp
  have p5: "(hop [1, 2, 3, 0] ^^ unat (5 :: u32)) 0 = 1"
    by code_simp
  have p6: "(hop [1, 2, 3, 0] ^^ unat (6 :: u32)) 0 \<noteq> 1"
    by code_simp
  from slot1_written_iff_final_pos_1 [OF run5] p5
  have "\<exists>pos1 dependency1. chase_loop [1, 2, 3, 0] 5 0 0 0 = Inr (pos1, dependency1)
               \<and> chase_loop [1, 2, 3, 0] 5 0 (reset_pos pos1) dependency1 = Inr (1, 14)"
    by simp
  with run5 run6 p5 p6 show ?thesis
    by blast
qed

text \<open>
  C3. For every single-cycle buffer of length at least 2 and every \<open>iterations > 0\<close>
  the kernel completes, keeps the length of the buffer, leaves in slot 0 an unsigned
  32-bit value (so a non-negative integer), and leaves every slot of index 2 or more as
  it was: only slots 0 and 1 can be written.
\<close>

theorem kernel_frame:
  assumes "single_cycle data" and "2 \<le> length data" and "iterations \<noteq> 0"
  shows "\<exists>data'. gpu_stride_kernel data iterations t_start t_stop = Inr data'
           \<and> length data' = length data
           \<and> 0 \<le> uint (data' ! 0)
           \<and> (\<forall>k. 2 \<le> k \<longrightarrow> data' ! k = data ! k)"
proof -
  from assms(2) have ne: "data \<noteq> []"
    by auto
  from gpu_stride_kernel_returns [OF single_cycle_in_range [OF assms(1)] ne assms(3)]
  obtain data' where run: "gpu_stride_kernel data iterations t_start t_stop = Inr data'" ..
  have "data' ! k = data ! k" if "2 \<le> k" for k
    using run that
    by (auto simp add: gpu_stride_kernel_walk split: if_splits)
  with run gpu_stride_kernel_slot0(2) [OF run] show ?thesis
    by simp
qed

theorem kernel_frame_witness:
  "single_cycle [1, 2, 3, 0] \<and> 2 \<le> length [1, 2, 3, 0 :: u32] \<and> (5 :: u32) \<noteq> 0
   \<and> gpu_stride_kernel [1, 2, 3, 0] 5 0 100 = Inr [20, 14, 3, 0]
   \<and> [20, 14, 3, 0 :: u32] ! 2 = [1, 2, 3, 0] ! 2
   \<and> [20, 14, 3, 0 :: u32] ! 3 = [1, 2, 3, 0] ! 3"
proof -
  have c: "single_cycle [1, 2, 3, 0]"
    by code_simp
  have l: "2 \<le> length [1, 2, 3, 0 :: u32]"
    by simp
  have h: "(5 :: u32) \<noteq> 0"
    by simp
  have run: "gpu_stride_kernel [1, 2, 3, 0] 5 0 100 = Inr [20, 14, 3, 0]"
    by code_simp
  from kernel_frame [OF c l h, of 0 100] run
  have frame: "\<forall>k. 2 \<le> k \<longrightarrow> [20, 14, 3, 0 :: u32] ! k = [1, 2, 3, 0] ! k"
    by simp
  from frame have "[20, 14, 3, 0 :: u32] ! 2 = [1, 2, 3, 0] ! 2"
    by (rule allE) simp
  moreover from frame have "[20, 14, 3, 0 :: u32] ! 3 = [1, 2, 3, 0] ! 3"
    by (rule allE) simp
  ultimately show ?thesis
    using c l h run by blast
qed

text \<open>
  C4. Started at position \<open>pos\<close> with all its loads inside the buffer, one run of the
  loop performs exactly \<open>iterations\<close> hops \<open>pos \<leftarrow> data[pos]\<close>: the positions it
  loads are, in order, the successive iterates of the buffer-indexing function on the
  starting position, there are \<open>iterations\<close> of them, each one is added to
  \<open>dependency\<close>, and the final position is the \<open>iterations\<close>-fold iterate.
\<close>

theorem chase_loop_hops:
  assumes "walk_ok data (unat iterations) pos"
  shows "chase_loop data iterations 0 pos dependency =
           Inr ((hop data ^^ unat iterations) pos,
                dependency + sum_list (walk data (unat iterations) pos))
       \<and> chase_visits data iterations 0 pos dependency [] =
           Inr ((hop data ^^ unat iterations) pos,
                dependency + sum_list (walk data (unat iterations) pos),
                walk data (unat iterations) pos)
       \<and> length (walk data (unat iterations) pos) = unat iterations
       \<and> (\<forall>k < unat iterations. walk data (unat iterations) pos ! k = (hop data ^^ Suc k) pos)"
  using assms
  by (simp add: chase_loop_walk chase_visits_walk length_walk walk_nth)

theorem chase_loop_hops_witness:
  "walk_ok [1, 2, 3, 0] (unat (6 :: u32)) 0
   \<and> chase_loop [1, 2, 3, 0] 6 0 0 0 = Inr (2, 9)
   \<and> chase_visits [1, 2, 3, 0] 6 0 0 0 [] = Inr (2, 9, [1, 2, 3, 0, 1, 2])"
proof -
  have ok: "walk_ok [1, 2, 3, 0] (unat (6 :: u32)) 0"
    by code_simp
  have p: "(hop [1, 2, 3, 0] ^^ unat (6 :: u32)) 0 = 2"
    by code_simp
  have w: "walk [1, 2, 3, 0] (unat (6 :: u32)) 0 = [1, 2, 3, 0, 1, 2]"
    by code_simp
  from chase_loop_hops [OF ok, of 0] ok show ?thesis
    by (simp only: p w) simp
qed

text \<open>
  C5. In the kernel the reset between the loops leaves position 0 whatever the position
  after the warm-up was, so that the measurement loop begins at position 0, where the
  warm-up loop began. In every run of the kernel that completes, the measurement loop
  has loaded exactly the sequence of positions the warm-up loop loaded, the chain of
  \<open>iterations\<close> hops from slot 0 of the buffer, and has ended at the same position.
  The kernel with the record of its phases returns the buffer the kernel returns, and
  faults where it faults; a non-empty buffer whose indices are all in range completes
  for every \<open>iterations > 0\<close>.
\<close>

theorem measurement_repeats_warm_up:
  "reset_pos pos = 0
   \<and> gpu_stride_kernel data iterations t_start t_stop =
       map_sum (\<lambda>e. e) fst (gpu_stride_kernel_visits data iterations t_start t_stop)
   \<and> (\<forall>data' ph. gpu_stride_kernel_visits data iterations t_start t_stop = Inr (data', ph) \<longrightarrow>
         measurement_start ph = 0
         \<and> measurement_visited ph = warm_up_visited ph
         \<and> measurement_end ph = warm_up_end ph
         \<and> warm_up_visited ph = walk data (unat iterations) 0
         \<and> length (measurement_visited ph) = unat iterations)
   \<and> (data \<noteq> [] \<and> in_range data \<and> iterations \<noteq> 0 \<longrightarrow>
        (\<exists>data' ph. gpu_stride_kernel_visits data iterations t_start t_stop = Inr (data', ph)
           \<and> gpu_stride_kernel data iterations t_start t_stop = Inr data'))"
proof (intro conjI allI impI)
  show "reset_pos pos = 0"
    by (rule reset_pos_zero)
  show "gpu_stride_kernel data iterations t_start t_stop =
       map_sum (\<lambda>e. e) fst (gpu_stride_kernel_visits data iterations t_start t_stop)"
    by (rule gpu_stride_kernel_visits_project)
next
  fix data' ph
  assume run: "gpu_stride_kernel_visits data iterations t_start t_stop = Inr (data', ph)"
  then have ph: "ph = \<lparr>warm_up_visited = walk data (unat iterations) 0,
                 warm_up_end = (hop data ^^ unat iterations) 0,
                 measurement_start = 0,
                 measurement_visited = walk data (unat iterations) 0,
                 measurement_end = (hop data ^^ unat iterations) 0\<rparr>"
    by (simp add: gpu_stride_kernel_visits_walk split: if_splits)
  show "measurement_start ph = 0"
    by (simp add: ph)
  show "measurement_visited ph = warm_up_visited ph"
    by (simp add: ph)
  show "measurement_end ph = warm_up_end ph"
    by (simp add: ph)
  show "warm_up_visited ph = walk data (unat iterations) 0"
    by (simp add: ph)
  show "length (measurement_visited ph) = unat iterations"
    by (simp add: ph length_walk)
next
  assume a: "data \<noteq> [] \<and> in_range data \<and> iterations \<noteq> 0"
  then obtain data' where k: "gpu_stride_kernel data iterations t_start t_stop = Inr data'"
    using gpu_stride_kernel_returns [of data iterations t_start t_stop] by blast
  then obtain r where "gpu_stride_kernel_visits data iterations t_start t_stop = Inr r"
    and "fst r = data'"
    by (cases "gpu_stride_kernel_visits data iterations t_start t_stop")
       (simp_all add: gpu_stride_kernel_visits_project)
  then have "gpu_stride_kernel_visits data iterations t_start t_stop = Inr (data', snd r)"
    by (cases r) simp
  with k show "\<exists>data' ph. gpu_stride_kernel_visits data iterations t_start t_stop = Inr (data', ph)
           \<and> gpu_stride_kernel data iterations t_start t_stop = Inr data'"
    by blast
qed

theorem measurement_repeats_warm_up_witness:
  "gpu_stride_kernel [1, 2, 3, 0] 5 0 100 = Inr [20, 14, 3, 0]
   \<and> gpu_stride_kernel_visits [1, 2, 3, 0] 5 0 100 =
       Inr ([20, 14, 3, 0],
            \<lparr>warm_up_visited = [1, 2, 3, 0, 1], warm_up_end = 1, measurement_start = 0,
             measurement_visited = [1, 2, 3, 0, 1], measurement_end = 1\<rparr>)
   \<and> reset_pos 1 = 0
   \<and> map_sum (\<lambda>e. e) fst (gpu_stride_kernel_visits [1, 2, 3, 0] 5 0 100) = Inr [20, 14, 3, 0]"
proof -
  have run: "gpu_stride_kernel_visits [1, 2, 3, 0] 5 0 100 =
       Inr ([20, 14, 3, 0],
            \<lparr>warm_up_visited = [1, 2, 3, 0, 1], warm_up_end = 1, measurement_start = 0,
             measurement_visited = [1, 2, 3, 0, 1], measurement_end = 1\<rparr>)"
    by code_simp
  note inst = measurement_repeats_warm_up [of 1 "[1, 2, 3, 0]" 5 0 100]
  from inst have r: "reset_pos 1 = 0"
    by blast
  from inst have "gpu_stride_kernel [1, 2, 3, 0] 5 0 100 =
       map_sum (\<lambda>e. e) fst (gpu_stride_kernel_visits [1, 2, 3, 0] 5 0 100)"
    by blast
  then have k: "gpu_stride_kernel [1, 2, 3, 0] 5 0 100 = Inr [20, 14, 3, 0]"
    by (simp only: run map_sum.simps fst_conv)
  then have "map_sum (\<lambda>e. e) fst (gpu_stride_kernel_visits [1, 2, 3, 0] 5 0 100) = Inr [20, 14, 3, 0]"
    by (simp only: run map_sum.simps fst_conv)
  with run r k show ?thesis
    by blast
qed

text \<open>
  C6. With \<open>iterations = 0\<close> neither loop reads the buffer, and the kernel reaches the
  division with a zero divisor. With \<open>iterations > 0\<close> the division by zero is never
  the outcome.
\<close>

theorem zero_iterations_divides_by_zero:
  "gpu_stride_kernel data 0 t_start t_stop = Inl DivisionByZero
   \<and> (iterations \<noteq> 0 \<longrightarrow>
        gpu_stride_kernel data iterations t_start t_stop \<noteq> Inl DivisionByZero)"
  by (simp add: gpu_stride_kernel_walk)

theorem zero_iterations_divides_by_zero_witness:
  "gpu_stride_kernel [1, 2, 3, 0] 0 0 100 = Inl DivisionByZero
   \<and> (5 :: u32) \<noteq> 0
   \<and> gpu_stride_kernel [1, 2, 3, 0] 5 0 100 \<noteq> Inl DivisionByZero"
  using zero_iterations_divides_by_zero [of "[1, 2, 3, 0]" 0 100 5]
  by simp

text \<open>
  C8, as stated, fails: \<open>dependency\<close> is set to 0 once, before the warm-up loop, and
  is not reset between the loops. On \<open>[1, 2, 3, 0]\<close> with nine iterations each loop
  adds 13, and the guarded write stores 26.
\<close>

theorem sink_keeps_warm_up_sum:
  "chase_loop [1, 2, 3, 0] 9 0 0 0 = Inr (1, 13)
   \<and> chase_loop [1, 2, 3, 0] 9 0 (reset_pos 1) 13 = Inr (1, 26)
   \<and> gpu_stride_kernel [1, 2, 3, 0] 9 0 900 = Inr [100, 26, 3, 0]"
  by code_simp

text \<open>
  C8, amended. Only the final position of the warm-up is discarded (reset to 0). Whenever
  the guarded write to slot 1 occurs, the value stored is the accumulation of the
  warm-up loop plus the accumulation of the measurement loop, each the sum of the
  positions loaded in one phase (modulo \<open>2^32\<close>). Slot 0 holds the average, which
  does not depend on the sink.
\<close>

theorem sink_is_sum_of_both_phases:
  assumes "gpu_stride_kernel data iterations t_start t_stop = Inr data'"
    and "(hop data ^^ unat iterations) 0 = 1"
  shows "\<exists>w m. chase_loop data iterations 0 0 0 = Inr (1, w)
           \<and> chase_loop data iterations 0 (reset_pos 1) 0 = Inr (1, m)
           \<and> w = sum_list (walk data (unat iterations) 0)
           \<and> m = sum_list (walk data (unat iterations) 0)
           \<and> data' ! 1 = w + m
           \<and> data' ! 0 = ucast ((t_stop - t_start) div ucast iterations)"
  using assms
  by (auto simp add: gpu_stride_kernel_walk chase_loop_walk reset_pos_zero split: if_splits)

theorem sink_is_sum_of_both_phases_witness:
  "gpu_stride_kernel [1, 2, 3, 0] 9 0 900 = Inr [100, 26, 3, 0]
   \<and> (hop [1, 2, 3, 0] ^^ unat (9 :: u32)) 0 = 1
   \<and> (\<exists>w m. chase_loop [1, 2, 3, 0] 9 0 0 0 = Inr (1, w)
           \<and> chase_loop [1, 2, 3, 0] 9 0 (reset_pos 1) 0 = Inr (1, m)
           \<and> [100, 26, 3, 0] ! 1 = w + m)
   \<and> reset_pos 1 = 0"
proof -
  have run: "gpu_stride_kernel [1, 2, 3, 0] 9 0 900 = Inr [100, 26, 3, 0]"
    by code_simp
  have p: "(hop [1, 2, 3, 0] ^^ unat (9 :: u32)) 0 = 1"
    by code_simp
  have r: "reset_pos 1 = 0"
    by (simp add: reset_pos_def)
  from sink_is_sum_of_both_phases [OF run p] run p r show ?thesis
    by blast
qed


text \<open>
  C9. The value left in slot 0 is the truncated 64-bit quotient reduced modulo \<open>2^32\<close>:
  an average of \<open>2^32\<close> or more wraps, with no saturation and no fault.
\<close>

theorem slot0_is_quotient_mod_2_32:
  "(\<forall>data'. gpu_stride_kernel data iterations t_start t_stop = Inr data' \<longrightarrow>
      unat (data' ! 0) = (unat (t_stop - t_start) div unat iterations) mod 2 ^ 32)
   \<and> (data \<noteq> [] \<and> in_range data \<and> iterations \<noteq> 0 \<longrightarrow>
        (\<exists>data'. gpu_stride_kernel data iterations t_start t_stop = Inr data'))"
proof (intro conjI allI impI)
  fix data'
  assume run: "gpu_stride_kernel data iterations t_start t_stop = Inr data'"
  have "unat (data' ! 0) = unat (ucast ((t_stop - t_start) div ucast iterations) :: u32)"
    by (simp only: gpu_stride_kernel_slot0(4) [OF run])
  also have "\<dots> = unat ((t_stop - t_start) div (ucast iterations :: u64)) mod 2 ^ 32"
    by (rule unat_ucast_u32)
  also have "\<dots> = (unat (t_stop - t_start) div unat iterations) mod 2 ^ 32"
    by (simp only: unat_div unat_ucast_u64)
  finally show "unat (data' ! 0) = (unat (t_stop - t_start) div unat iterations) mod 2 ^ 32" .
next
  assume "data \<noteq> [] \<and> in_range data \<and> iterations \<noteq> 0"
  then show "\<exists>data'. gpu_stride_kernel data iterations t_start t_stop = Inr data'"
    by (simp add: gpu_stride_kernel_returns)
qed

theorem slot0_is_quotient_mod_2_32_witness:
  "gpu_stride_kernel [1, 2, 3, 0] 1 0 4294967301 = Inr [5, 2, 3, 0]
   \<and> unat (4294967301 - 0 :: u64) div unat (1 :: u32) = 4294967301
   \<and> unat ([5, 2, 3, 0 :: u32] ! 0) = (unat (4294967301 - 0 :: u64) div unat (1 :: u32)) mod 2 ^ 32"
proof -
  have run: "gpu_stride_kernel [1, 2, 3, 0] 1 0 4294967301 = Inr [5, 2, 3, 0]"
    by code_simp
  have q: "unat (4294967301 - 0 :: u64) div unat (1 :: u32) = 4294967301"
    by simp
  from slot0_is_quotient_mod_2_32 [of "[1, 2, 3, 0]" 1 0 4294967301] run
  have "unat ([5, 2, 3, 0 :: u32] ! 0) = (unat (4294967301 - 0 :: u64) div unat (1 :: u32)) mod 2 ^ 32"
    by blast
  with run q show ?thesis
    by blast
qed


section \<open>The bit utilities: claims\<close>

text \<open>
  C7. For every \<open>int\<close> argument \<open>x \<ge> 1\<close> the floor function is at most the
  base-2 logarithm of \<open>x\<close>, which is at most the ceiling function; each bound is an
  equality exactly when \<open>x\<close> is a power of two. The values at 1, 8 and 9 are those of
  the specification.
\<close>

theorem log2_floor_le_log2_le_ceil:
  assumes "1 \<le> sint x"
  shows "real_of_int (log2_floor_power_of_two x) \<le> log 2 (real_of_int (sint x))
       \<and> log 2 (real_of_int (sint x)) \<le> real_of_int (log2_ceil_power_of_two x)
       \<and> (real_of_int (log2_floor_power_of_two x) = log 2 (real_of_int (sint x))
            \<longleftrightarrow> (\<exists>k::nat. sint x = 2 ^ k))
       \<and> (log 2 (real_of_int (sint x)) = real_of_int (log2_ceil_power_of_two x)
            \<longleftrightarrow> (\<exists>k::nat. sint x = 2 ^ k))
       \<and> log2_floor_power_of_two 1 = 0 \<and> log2_ceil_power_of_two 1 = 0
       \<and> log2_floor_power_of_two 8 = 3 \<and> log2_ceil_power_of_two 8 = 3
       \<and> log2_floor_power_of_two 9 = 3 \<and> log2_ceil_power_of_two 9 = 4"
proof -
  have vals: "log2_floor_power_of_two 1 = 0 \<and> log2_ceil_power_of_two 1 = 0
       \<and> log2_floor_power_of_two 8 = 3 \<and> log2_ceil_power_of_two 8 = 3
       \<and> log2_floor_power_of_two 9 = 3 \<and> log2_ceil_power_of_two 9 = 4"
    by code_simp
  from floor_log2_real [OF assms] ceil_log2_real [OF assms] vals show ?thesis
    by blast
qed

theorem log2_floor_le_log2_le_ceil_witness:
  "1 \<le> sint (9 :: u32)
   \<and> real_of_int (log2_floor_power_of_two 9) \<le> log 2 (real_of_int (sint (9 :: u32)))
   \<and> log 2 (real_of_int (sint (9 :: u32))) \<le> real_of_int (log2_ceil_power_of_two 9)
   \<and> log2_floor_power_of_two 9 = 3 \<and> log2_ceil_power_of_two 9 = 4"
proof -
  have h: "1 \<le> sint (9 :: u32)"
    by simp
  from log2_floor_le_log2_le_ceil [OF h] h show ?thesis
    by blast
qed


text \<open>
  C10. For every \<open>x \<ge> 2\<close> the ceiling function at \<open>x\<close> is one more than the floor
  function at \<open>x - 1\<close>: both count the leading zeros of \<open>x - 1\<close>.
\<close>

theorem log2_ceil_is_floor_of_predecessor:
  assumes "2 \<le> sint x"
  shows "log2_ceil_power_of_two x = log2_floor_power_of_two (x - 1) + 1"
  by (simp add: log2_ceil_power_of_two_def log2_floor_power_of_two_def)

theorem log2_ceil_is_floor_of_predecessor_witness:
  "2 \<le> sint (9 :: u32) \<and> log2_ceil_power_of_two 9 = log2_floor_power_of_two (9 - 1) + 1
   \<and> log2_ceil_power_of_two 9 = 4"
proof -
  have h: "2 \<le> sint (9 :: u32)"
    by simp
  have v: "log2_ceil_power_of_two 9 = 4"
    by code_simp
  from log2_ceil_is_floor_of_predecessor [OF h] h v show ?thesis
    by blast
qed

end
